theory Spec2Isabelle
  imports Main
begin

section \<open>Automata (NFA.h, DFA.h)\<close>

text \<open>
  State indices and symbols are C++ \<open>int\<close>s that are never negative; they are natural
  numbers here. \<open>std::set<int>\<close> is a set of naturals: two sets with the same elements
  are the same key of a \<open>std::map\<close>, whatever the order of insertion.
\<close>

text \<open>
  Modelled from the spec: NFA.h is not among the sources. Section 3 of the spec: states
  are a dense array; each state owns its transitions (symbol, destination; several
  destinations per symbol are legal) and an accepting marker; the automaton owns a set of
  start states. Section 4.1: \<open>GetStart\<close>, \<open>GetNext(symbol, set)\<close> (all states reachable
  from a state of the set by the symbol, empty if there is none) and \<open>IsStop(state)\<close>.
  The alphabet size \<open>NFA::NUM_SYMBOLS\<close> is a constant of the missing header; it is the
  parameter \<open>K\<close> of the functions below.
\<close>

record NFA_State =
  st_trans :: "(nat \<times> nat) list"
  st_stop :: bool

record NFA =
  nfa_states :: "NFA_State list"
  nfa_start :: "nat set"

definition GetStart :: "NFA \<Rightarrow> nat set" where
  "GetStart nfa = nfa_start nfa"

definition state_next :: "NFA \<Rightarrow> nat \<Rightarrow> nat \<Rightarrow> nat set" where
  "state_next nfa symb s =
     (if s < length (nfa_states nfa)
      then set (map snd (filter (\<lambda>e. fst e = symb) (st_trans (nfa_states nfa ! s))))
      else {})"

definition GetNext :: "NFA \<Rightarrow> nat \<Rightarrow> nat set \<Rightarrow> nat set" where
  "GetNext nfa symb from_set = (\<Union>s\<in>from_set. state_next nfa symb s)"

definition IsStop :: "NFA \<Rightarrow> nat \<Rightarrow> bool" where
  "IsStop nfa s = (s < length (nfa_states nfa) \<and> st_stop (nfa_states nfa ! s))"

text \<open>
  The invariant of the spec's data model: every transition destination and every start
  state is a state index of the automaton.
\<close>

definition wf_nfa :: "NFA \<Rightarrow> bool" where
  "wf_nfa nfa \<longleftrightarrow>
     (\<forall>st\<in>set (nfa_states nfa). \<forall>e\<in>set (st_trans st). snd e < length (nfa_states nfa))
     \<and> (\<forall>s\<in>nfa_start nfa. s < length (nfa_states nfa))"

text \<open>
  Acceptance as the spec words it (section 8): the automaton, started in its start
  state-set, ends in a set with an accepting state after consuming all of \<open>w\<close>.
\<close>

definition NFA_accepts :: "NFA \<Rightarrow> nat list \<Rightarrow> bool" where
  "NFA_accepts nfa w =
     (\<exists>s\<in>foldl (\<lambda>S symb. GetNext nfa symb S) (GetStart nfa) w. IsStop nfa s)"

text \<open>
  Modelled from the spec: DFA.h is not among the sources. Section 3: each state owns a
  dense array of size \<open>NUM_SYMBOLS\<close> from symbol to next state or "no transition"
  (\<open>None\<close> here) and an accepting marker; the start state is index 0. Section 4.2: the
  constructor takes an initial state count; \<open>Resize(n)\<close> grows the table, new states
  without transitions and not accepting, and never shrinks; \<open>SetTransition(from, to,
  symbol)\<close> overwrites; \<open>SetStop(state)\<close>; \<open>GetSize()\<close>; the traversal gives the next
  state or the sentinel. A call with an index out of range is a programmer error
  (section 7) and leaves the table as it is.
\<close>

record DFA =
  transitions :: "nat option list list"
  is_stop :: "bool list"

definition DFA_new :: "nat \<Rightarrow> nat \<Rightarrow> DFA" where
  "DFA_new K n = \<lparr>transitions = replicate n (replicate K None), is_stop = replicate n False\<rparr>"

definition GetSize :: "DFA \<Rightarrow> nat" where
  "GetSize d = length (transitions d)"

definition Resize :: "nat \<Rightarrow> DFA \<Rightarrow> nat \<Rightarrow> DFA" where
  "Resize K d n =
     (if n \<le> GetSize d then d
      else \<lparr>transitions = transitions d @ replicate (n - GetSize d) (replicate K None),
            is_stop = is_stop d @ replicate (n - length (is_stop d)) False\<rparr>)"

definition SetTransition :: "DFA \<Rightarrow> nat \<Rightarrow> nat \<Rightarrow> nat \<Rightarrow> DFA" where
  "SetTransition d from_id to_id symb =
     (if from_id < GetSize d \<and> to_id < GetSize d \<and> symb < length (transitions d ! from_id)
      then d\<lparr>transitions :=
               (transitions d)[from_id := (transitions d ! from_id)[symb := Some to_id]]\<rparr>
      else d)"

definition SetStop :: "DFA \<Rightarrow> nat \<Rightarrow> DFA" where
  "SetStop d s = d\<lparr>is_stop := (is_stop d)[s := True]\<rparr>"

definition DFA_GetNext :: "DFA \<Rightarrow> nat \<Rightarrow> nat \<Rightarrow> nat option" where
  "DFA_GetNext d s symb =
     (if s < GetSize d \<and> symb < length (transitions d ! s)
      then transitions d ! s ! symb else None)"

definition DFA_IsStop :: "DFA \<Rightarrow> nat \<Rightarrow> bool" where
  "DFA_IsStop d s = (s < length (is_stop d) \<and> is_stop d ! s)"

text \<open>
  The run of the DFA from a state: \<open>None\<close> when a symbol has no transition. The DFA
  accepts \<open>w\<close> when the run from state 0 consumes all of \<open>w\<close> and ends in an accepting
  state (spec, section 8).
\<close>

fun DFA_run :: "DFA \<Rightarrow> nat \<Rightarrow> nat list \<Rightarrow> nat option" where
  "DFA_run d s [] = Some s"
| "DFA_run d s (symb # w) =
     (case DFA_GetNext d s symb of None \<Rightarrow> None | Some t \<Rightarrow> DFA_run d t w)"

definition DFA_accepts :: "DFA \<Rightarrow> nat list \<Rightarrow> bool" where
  "DFA_accepts d w = (case DFA_run d 0 w of None \<Rightarrow> False | Some s \<Rightarrow> DFA_IsStop d s)"


section \<open>Subset construction (lexer utilities, \<open>to_DFA\<close>)\<close>

text \<open>
  The local variables of \<open>to_DFA\<close>:
  \<^verbatim>\<open>
  DFA dfa(1);                               // Setup zero to be the start state.
  std::map<std::set<int>, int> id_map;      // How do nfa state sets map to dfa states?
  std::vector<std::set<int>> state_stack;   // Which states still need to be explored?\<close>
\<close>

record to_DFA_vars =
  dfa :: DFA
  id_map :: "nat set \<rightharpoonup> nat"
  state_stack :: "nat set list"

text \<open>
  \<open>id_map[key]\<close> of \<open>std::map\<close>: the value stored for the key; a key that is absent is
  inserted with the value 0 first.
\<close>

definition map_index :: "('k \<rightharpoonup> nat) \<Rightarrow> 'k \<Rightarrow> nat \<times> ('k \<rightharpoonup> nat)" where
  "map_index m k = (case m k of Some v \<Rightarrow> (v, m) | None \<Rightarrow> (0, m(k \<mapsto> 0)))"

text \<open>
  The body of the loop over the symbols:
  \<^verbatim>\<open>
  std::set<int> next_state = nfa.GetNext(sym, cur_state);
  if (next_state.size() == 0 && !keep_invalid) continue;  // Discard invalid transitions.

  // Determine if we have a new state in the DFA.
  if (id_map.find(next_state) == id_map.end()) {
    const int next_id = dfa.GetSize();
    id_map[next_state] = next_id;
    dfa.Resize(next_id + 1);
    state_stack.emplace_back(next_state);
    for (int s : next_state) if (nfa.IsStop(s)) { dfa.SetStop(next_id); break; }
  }

  // Setup the new connection in the DFA
  const int next_id = id_map[next_state];
  dfa.SetTransition(cur_id, next_id, sym);\<close>
\<close>

definition explore_sym ::
  "nat \<Rightarrow> NFA \<Rightarrow> bool \<Rightarrow> nat set \<Rightarrow> nat \<Rightarrow> nat \<Rightarrow> to_DFA_vars \<Rightarrow> to_DFA_vars" where
  "explore_sym K nfa keep_invalid cur_state cur_id symb st =
     (let next_state = GetNext nfa symb cur_state in
      if next_state = {} \<and> \<not> keep_invalid then st
      else
        let st1 = (if id_map st next_state = None then
                     let next_id = GetSize (dfa st);
                         d1 = Resize K (dfa st) (next_id + 1);
                         d2 = (if \<exists>s\<in>next_state. IsStop nfa s then SetStop d1 next_id else d1)
                     in \<lparr>dfa = d2, id_map = (id_map st)(next_state \<mapsto> next_id),
                         state_stack = state_stack st @ [next_state]\<rparr>
                   else st);
            r = map_index (id_map st1) next_state
        in st1\<lparr>dfa := SetTransition (dfa st1) cur_id (fst r) symb, id_map := snd r\<rparr>)"

text \<open>
  One iteration of the work-list loop:
  \<^verbatim>\<open>
  std::set<int> cur_state = state_stack.back();
  const int cur_id = id_map[cur_state];
  state_stack.pop_back();
  for (int sym = 0; sym < NFA::NUM_SYMBOLS; sym++) { ... }\<close>
\<close>

definition explore_set :: "nat \<Rightarrow> NFA \<Rightarrow> bool \<Rightarrow> to_DFA_vars \<Rightarrow> to_DFA_vars" where
  "explore_set K nfa keep_invalid st =
     (let cur_state = last (state_stack st);
          r = map_index (id_map st) cur_state;
          st0 = st\<lparr>id_map := snd r, state_stack := butlast (state_stack st)\<rparr>
      in fold (explore_sym K nfa keep_invalid cur_state (fst r)) [0..<K] st0)"

text \<open>
  \<^verbatim>\<open>while (state_stack.size()) { ... }\<close>
  The loop is a recursive function; that it ends on every input is the termination proof
  below: each iteration either puts a set of NFA states into \<open>id_map\<close> that was not there
  (and there are finitely many sets of transition destinations), or shortens the stack.
\<close>

function explore_loop :: "nat \<Rightarrow> NFA \<Rightarrow> bool \<Rightarrow> to_DFA_vars \<Rightarrow> to_DFA_vars" where
  "explore_loop K nfa keep_invalid st =
     (if state_stack st = [] then st
      else explore_loop K nfa keep_invalid (explore_set K nfa keep_invalid st))"
  by pat_completeness auto

definition nfa_targets :: "NFA \<Rightarrow> nat set" where
  "nfa_targets nfa = (\<Union>st\<in>set (nfa_states nfa). snd ` set (st_trans st))"

definition unseen :: "NFA \<Rightarrow> to_DFA_vars \<Rightarrow> nat" where
  "unseen nfa st = card (Pow (nfa_targets nfa) - dom (id_map st))"

definition progress :: "NFA \<Rightarrow> to_DFA_vars \<Rightarrow> to_DFA_vars \<Rightarrow> bool" where
  "progress nfa st st' \<longleftrightarrow>
     unseen nfa st' \<le> unseen nfa st
     \<and> (unseen nfa st' = unseen nfa st \<longrightarrow> state_stack st' = state_stack st)"

lemma state_next_subset: "state_next nfa symb s \<subseteq> nfa_targets nfa"
proof (cases "s < length (nfa_states nfa)")
  case True
  then have "nfa_states nfa ! s \<in> set (nfa_states nfa)" by simp
  then show ?thesis
    using True by (fastforce simp: state_next_def nfa_targets_def)
next
  case False
  then show ?thesis by (simp add: state_next_def)
qed

lemma GetNext_subset: "GetNext nfa symb S \<subseteq> nfa_targets nfa"
  using state_next_subset by (fastforce simp: GetNext_def)

lemma finite_nfa_targets: "finite (nfa_targets nfa)"
  by (simp add: nfa_targets_def)

lemma progress_refl: "progress nfa st st"
  by (simp add: progress_def)

lemma progress_trans: "progress nfa a b \<Longrightarrow> progress nfa b c \<Longrightarrow> progress nfa a c"
  by (auto simp: progress_def)

lemma unseen_insert_less:
  assumes "T \<subseteq> nfa_targets nfa" and "m T = None"
  shows "card (Pow (nfa_targets nfa) - dom (m(T \<mapsto> v))) < card (Pow (nfa_targets nfa) - dom m)"
proof -
  have "T \<in> Pow (nfa_targets nfa) - dom m" using assms by auto
  then have "Pow (nfa_targets nfa) - dom (m(T \<mapsto> v)) \<subset> Pow (nfa_targets nfa) - dom m"
    by auto
  moreover have "finite (Pow (nfa_targets nfa) - dom m)"
    by (simp add: finite_nfa_targets)
  ultimately show ?thesis by (rule psubset_card_mono[rotated])
qed

lemma map_index_present: "m k = Some v \<Longrightarrow> map_index m k = (v, m)"
  by (simp add: map_index_def)

lemma explore_sym_progress:
  "progress nfa st (explore_sym K nfa kp cur cid symb st)"
proof -
  let ?T = "GetNext nfa symb cur"
  show ?thesis
  proof (cases "?T = {} \<and> \<not> kp")
    case True
    then show ?thesis by (simp add: explore_sym_def progress_refl)
  next
    case False
    show ?thesis
    proof (cases "id_map st ?T")
      case None
      have "unseen nfa (explore_sym K nfa kp cur cid symb st) < unseen nfa st"
        using False None unseen_insert_less[of ?T nfa "id_map st" "GetSize (dfa st)"] GetNext_subset[of nfa symb cur]
        by (simp add: explore_sym_def Let_def unseen_def map_index_def)
      then show ?thesis by (simp add: progress_def)
    next
      case (Some v)
      then show ?thesis
        using False by (simp add: explore_sym_def Let_def progress_def unseen_def map_index_def)
    qed
  qed
qed

lemma fold_explore_sym_progress:
  "progress nfa st (fold (explore_sym K nfa kp cur cid) xs st)"
proof (induction xs arbitrary: st)
  case Nil
  show ?case by (simp add: progress_refl)
next
  case (Cons x xs)
  show ?case
    using progress_trans[OF explore_sym_progress Cons.IH] by simp
qed

lemma unseen_map_index: 
  "card (Pow (nfa_targets nfa) - dom (snd (map_index m k))) \<le> card (Pow (nfa_targets nfa) - dom m)"
proof -
  have "Pow (nfa_targets nfa) - dom (snd (map_index m k)) \<subseteq> Pow (nfa_targets nfa) - dom m"
    by (auto simp: map_index_def split: option.splits)
  then show ?thesis
    by (rule card_mono[rotated]) (simp add: finite_nfa_targets)
qed

lemma explore_set_decreases:
  assumes "state_stack st \<noteq> []"
  shows "unseen nfa (explore_set K nfa kp st) < unseen nfa st
     \<or> (unseen nfa (explore_set K nfa kp st) = unseen nfa st
        \<and> length (state_stack (explore_set K nfa kp st)) < length (state_stack st))"
proof -
  let ?r = "map_index (id_map st) (last (state_stack st))"
  let ?st0 = "st\<lparr>id_map := snd ?r, state_stack := butlast (state_stack st)\<rparr>"
  have e: "explore_set K nfa kp st
      = fold (explore_sym K nfa kp (last (state_stack st)) (fst ?r)) [0..<K] ?st0"
    by (simp add: explore_set_def Let_def)
  have p: "progress nfa ?st0 (explore_set K nfa kp st)"
    unfolding e by (rule fold_explore_sym_progress)
  have u0: "unseen nfa ?st0 \<le> unseen nfa st"
    using unseen_map_index by (simp add: unseen_def)
  have l0: "length (state_stack ?st0) < length (state_stack st)"
    using assms by simp
  show ?thesis
    using p u0 l0 unfolding progress_def by force
qed

termination explore_loop
proof (relation "measures [\<lambda>(K, nfa, kp, st). unseen nfa st,
                           \<lambda>(K, nfa, kp, st). length (state_stack st)]")
  show "wf (measures [\<lambda>(K, nfa, kp, st). unseen nfa st,
                      \<lambda>(K, nfa, kp, st). length (state_stack st)])"
    by simp
next
  fix K :: nat and nfa :: NFA and keep_invalid :: bool and st :: to_DFA_vars
  assume "state_stack st \<noteq> []"
  from explore_set_decreases[OF this, of nfa K keep_invalid]
  show "((K, nfa, keep_invalid, explore_set K nfa keep_invalid st), (K, nfa, keep_invalid, st))
      \<in> measures [\<lambda>(K, nfa, kp, st). unseen nfa st,
                   \<lambda>(K, nfa, kp, st). length (state_stack st)]"
    by auto
qed

text \<open>
  \<^verbatim>\<open>
  static DFA to_DFA(const NFA & nfa, int keep_invalid=false) {
    DFA dfa(1);
    ...
    state_stack.emplace_back(nfa.GetStart()); // Place the starting point in the state_stack.
    id_map[state_stack[0]] = 0;               // Give starting point ID 0.
    while (state_stack.size()) { ... }
    return dfa;
  }\<close>
  The parameter \<open>keep_invalid\<close> is an \<open>int\<close> read as a truth value; it is a \<open>bool\<close> here.
  \<open>to_DFA_init\<close> is the state of the local variables before the loop, \<open>to_DFA_run\<close>
  their state at the \<open>return\<close>.
\<close>

definition to_DFA_init :: "nat \<Rightarrow> NFA \<Rightarrow> to_DFA_vars" where
  "to_DFA_init K nfa =
     \<lparr>dfa = DFA_new K 1, id_map = [GetStart nfa \<mapsto> 0], state_stack = [GetStart nfa]\<rparr>"

definition to_DFA_run :: "nat \<Rightarrow> NFA \<Rightarrow> bool \<Rightarrow> to_DFA_vars" where
  "to_DFA_run K nfa keep_invalid = explore_loop K nfa keep_invalid (to_DFA_init K nfa)"

definition to_DFA :: "nat \<Rightarrow> NFA \<Rightarrow> bool \<Rightarrow> DFA" where
  "to_DFA K nfa keep_invalid = dfa (to_DFA_run K nfa keep_invalid)"


section \<open>Invariants of the work-list loop\<close>

text \<open>
  The table of a DFA is well formed when it has one accepting marker per state and every
  row has one entry per symbol.
\<close>

definition wf_dfa :: "nat \<Rightarrow> DFA \<Rightarrow> bool" where
  "wf_dfa K d \<longleftrightarrow>
     length (is_stop d) = length (transitions d)
     \<and> (\<forall>row\<in>set (transitions d). length row = K)"

text \<open>
  The DFA after the allocation of the state for a set \<open>T\<close> that \<open>id_map\<close> does not hold:
  \<open>Resize\<close> by one state and the loop that marks the state accepting.
\<close>

definition add_state :: "nat \<Rightarrow> NFA \<Rightarrow> nat set \<Rightarrow> DFA \<Rightarrow> DFA" where
  "add_state K nfa T d =
     (if \<exists>s\<in>T. IsStop nfa s then SetStop (Resize K d (GetSize d + 1)) (GetSize d)
      else Resize K d (GetSize d + 1))"

text \<open>
  \<open>id_map\<close> gives the start set the index 0 and is a bijection between the sets it holds
  and the states of the DFA.
\<close>

definition ids_ok :: "NFA \<Rightarrow> to_DFA_vars \<Rightarrow> bool" where
  "ids_ok nfa st \<longleftrightarrow>
     id_map st (GetStart nfa) = Some 0
     \<and> (\<forall>S i. id_map st S = Some i \<longrightarrow> i < GetSize (dfa st))
     \<and> (\<forall>S S' i. id_map st S = Some i \<longrightarrow> id_map st S' = Some i \<longrightarrow> S = S')
     \<and> (\<forall>i<GetSize (dfa st). \<exists>S. id_map st S = Some i)"

text \<open>The sets on the stack are in \<open>id_map\<close>, each once.\<close>

definition stack_ok :: "to_DFA_vars \<Rightarrow> bool" where
  "stack_ok st \<longleftrightarrow> set (state_stack st) \<subseteq> dom (id_map st) \<and> distinct (state_stack st)"

text \<open>
  State 0 is not accepting; every other state is accepting exactly when its set holds an
  accepting state of the NFA.
\<close>

definition stop_ok :: "NFA \<Rightarrow> to_DFA_vars \<Rightarrow> bool" where
  "stop_ok nfa st \<longleftrightarrow>
     \<not> DFA_IsStop (dfa st) 0
     \<and> (\<forall>T i. id_map st T = Some i \<longrightarrow> i \<noteq> 0 \<longrightarrow>
           DFA_IsStop (dfa st) i = (\<exists>s\<in>T. IsStop nfa s))"

text \<open>Without \<open>keep_invalid\<close> no state but state 0 stands for the empty set.\<close>

definition nonempty_ok :: "bool \<Rightarrow> to_DFA_vars \<Rightarrow> bool" where
  "nonempty_ok kp st \<longleftrightarrow> (\<forall>T i. id_map st T = Some i \<longrightarrow> i \<noteq> 0 \<longrightarrow> \<not> kp \<longrightarrow> T \<noteq> {})"

text \<open>
  The transition of state \<open>i\<close> (standing for the set \<open>S\<close>) on the symbol \<open>a\<close> is as
  the loop body leaves it: none for a discarded empty successor, else the index of the
  successor set.
\<close>

definition edge_ok :: "NFA \<Rightarrow> bool \<Rightarrow> to_DFA_vars \<Rightarrow> nat set \<Rightarrow> nat \<Rightarrow> nat \<Rightarrow> bool" where
  "edge_ok nfa kp st S i a \<longleftrightarrow>
     (if GetNext nfa a S = {} \<and> \<not> kp then DFA_GetNext (dfa st) i a = None
      else id_map st (GetNext nfa a S) \<noteq> None
         \<and> DFA_GetNext (dfa st) i a = id_map st (GetNext nfa a S))"

text \<open>
  Every set of \<open>id_map\<close> has its transitions recorded for the symbols below its
  progress mark and none for the others. A set on the stack has the mark 0, an explored
  set the mark \<open>K\<close>, and the set under exploration the number of the symbol the loop
  is at.
\<close>

definition trans_ok ::
  "nat \<Rightarrow> NFA \<Rightarrow> bool \<Rightarrow> (nat set \<Rightarrow> nat) \<Rightarrow> to_DFA_vars \<Rightarrow> bool" where
  "trans_ok K nfa kp done_to st \<longleftrightarrow>
     (\<forall>S i a. id_map st S = Some i \<longrightarrow> a < K \<longrightarrow>
        (if a < done_to S then edge_ok nfa kp st S i a else DFA_GetNext (dfa st) i a = None))"

definition outer_upto :: "nat \<Rightarrow> to_DFA_vars \<Rightarrow> nat set \<Rightarrow> nat" where
  "outer_upto K st S = (if S \<in> set (state_stack st) then 0 else K)"

definition inner_upto :: "nat \<Rightarrow> to_DFA_vars \<Rightarrow> nat set \<Rightarrow> nat \<Rightarrow> nat set \<Rightarrow> nat" where
  "inner_upto K st cur j S = (if S = cur then j else outer_upto K st S)"

definition inv_base :: "nat \<Rightarrow> NFA \<Rightarrow> bool \<Rightarrow> to_DFA_vars \<Rightarrow> bool" where
  "inv_base K nfa kp st \<longleftrightarrow>
     wf_dfa K (dfa st) \<and> ids_ok nfa st \<and> stack_ok st \<and> stop_ok nfa st \<and> nonempty_ok kp st"

definition inv_inner ::
  "nat \<Rightarrow> NFA \<Rightarrow> bool \<Rightarrow> nat set \<Rightarrow> nat \<Rightarrow> nat \<Rightarrow> to_DFA_vars \<Rightarrow> bool" where
  "inv_inner K nfa kp cur cid j st \<longleftrightarrow>
     inv_base K nfa kp st \<and> id_map st cur = Some cid \<and> cur \<notin> set (state_stack st)
     \<and> trans_ok K nfa kp (inner_upto K st cur j) st"

definition inv_outer :: "nat \<Rightarrow> NFA \<Rightarrow> bool \<Rightarrow> to_DFA_vars \<Rightarrow> bool" where
  "inv_outer K nfa kp st \<longleftrightarrow>
     inv_base K nfa kp st \<and> trans_ok K nfa kp (outer_upto K st) st"

text \<open>Every set of \<open>id_map\<close> is a set of state indices of the NFA.\<close>

definition sets_ok :: "NFA \<Rightarrow> to_DFA_vars \<Rightarrow> bool" where
  "sets_ok nfa st \<longleftrightarrow> dom (id_map st) \<subseteq> Pow {..<length (nfa_states nfa)}"

text \<open>
  Inputs for the concrete evaluations below, over the alphabet \<open>{0, 1}\<close>. \<open>ab_nfa\<close>
  accepts the words \<open>0\<dots>01\<close>: state 0 moves to itself and to state 1 on 0, state 1
  moves to the accepting state 2 on 1. \<open>loop_nfa\<close> has one state, start and accepting,
  with a loop on the symbol 0.
\<close>

definition ab_nfa :: NFA where
  "ab_nfa = \<lparr>nfa_states = [\<lparr>st_trans = [(0, 0), (0, 1)], st_stop = False\<rparr>,
                           \<lparr>st_trans = [(1, 2)], st_stop = False\<rparr>,
                           \<lparr>st_trans = [], st_stop = True\<rparr>],
             nfa_start = {0}\<rparr>"

definition loop_nfa :: NFA where
  "loop_nfa = \<lparr>nfa_states = [\<lparr>st_trans = [(0, 0)], st_stop = True\<rparr>], nfa_start = {0}\<rparr>"


section \<open>Grammar rule builder (Parser.h)\<close>

text \<open>
  \<^verbatim>\<open>struct ParseRule { std::string name; emp::vector<int> pattern; int id; };\<close>
  The field \<open>id\<close> is called \<open>rule_id\<close> here, the other two fields are prefixed alike.
  Ids are C++ \<open>int\<close>; they are modelled as unbounded integers (the only arithmetic on
  them is the post-increment of \<open>cur_rule_id\<close>).
\<close>

record ParseRule =
  rule_name :: string
  rule_pattern :: "int list"
  rule_id :: int

text \<open>
  Modelled from the spec: the class \<open>Lexer\<close> (Lexer.h) is not among the sources. The
  parser only reads \<open>MaxTokenID()\<close> of it; the spec says that the lexer owns named tokens
  with integer ids and that \<open>MaxTokenID()\<close> reports the highest assigned id.
\<close>

record Lexer =
  token_ids :: "(string \<times> int) list"
  max_token_id :: int

definition MaxTokenID :: "Lexer \<Rightarrow> int" where
  "MaxTokenID lx = max_token_id lx"

text \<open>
  \<^verbatim>\<open>class Parser { Lexer & lexer; emp::vector<ParseRule> rules; int cur_rule_id; ... }\<close>
\<close>

record Parser =
  lexer :: Lexer
  rules :: "ParseRule list"
  cur_rule_id :: int

text \<open>
  \<^verbatim>\<open>Parser(Lexer & in_lexer) : lexer(in_lexer), cur_rule_id(in_lexer.MaxTokenID()) { ; }\<close>
\<close>

definition Parser_new :: "Lexer \<Rightarrow> Parser" where
  "Parser_new in_lexer =
     \<lparr>lexer = in_lexer, rules = [], cur_rule_id = MaxTokenID in_lexer\<rparr>"

text \<open>
  The variadic arguments of \<open>AddRule\<close> are integers or strings; \<open>GetID\<close> is overloaded
  on the two. Neither overload reads a member of the parser.
  \<^verbatim>\<open>
  int GetID(int id) const { return id; }
  int GetID(const std::string & name) const {
    // @CAO Check existing rules.
    // @CAO Else, check lexer
    // @CAO Else, add rule to declaration list
    return 0;
  }\<close>
\<close>

datatype element = IntElem int | StrElem string

fun GetID :: "element \<Rightarrow> int" where
  "GetID (IntElem i) = i"
| "GetID (StrElem nm) = 0"

text \<open>
  \<^verbatim>\<open>
  void BuildRule(ParseRule & new_rule) { ; }
  void BuildRule(ParseRule & new_rule, T && arg, EXTRAS... extras) {
    new_rule.pattern.push_back( GetID(std::forward<T>(arg)) );
    BuildRule(new_rule, std::forward<EXTRAS>(extras)...);
  }\<close>
\<close>

fun BuildRule :: "ParseRule \<Rightarrow> element list \<Rightarrow> ParseRule" where
  "BuildRule new_rule [] = new_rule"
| "BuildRule new_rule (arg # extras) =
     BuildRule (new_rule\<lparr>rule_pattern := rule_pattern new_rule @ [GetID arg]\<rparr>) extras"

text \<open>
  \<^verbatim>\<open>
  int AddRule(const std::string & name, STATES... states) {
    ParseRule new_rule;
    new_rule.name = name;
    new_rule.id = cur_rule_id++;
    BuildRule(new_rule, states...);
    rules.emplace_back(new_rule);
    return new_rule.id;
  }\<close>
  The model returns the id together with the updated parser.
\<close>

definition AddRule :: "Parser \<Rightarrow> string \<Rightarrow> element list \<Rightarrow> int \<times> Parser" where
  "AddRule p nm states =
     (let new_rule = \<lparr>rule_name = nm, rule_pattern = [], rule_id = cur_rule_id p\<rparr>;
          p1 = p\<lparr>cur_rule_id := cur_rule_id p + 1\<rparr>;
          built = BuildRule new_rule states;
          p2 = p1\<lparr>rules := rules p1 @ [built]\<rparr>
      in (rule_id built, p2))"

text \<open>A sequence of calls to \<open>AddRule\<close>, each on the parser left by the one before.\<close>

fun AddRules :: "Parser \<Rightarrow> (string \<times> element list) list \<Rightarrow> Parser" where
  "AddRules p [] = p"
| "AddRules p ((nm, states) # calls) = AddRules (snd (AddRule p nm states)) calls"

text \<open>
  The resolution of a name as the spec words it (section 4.5): first the rules declared
  so far, then the token names of the lexer; \<open>None\<close> is the unknown-name error.
\<close>

definition resolve_name_spec :: "Parser \<Rightarrow> string \<Rightarrow> int option" where
  "resolve_name_spec p nm =
     (case find (\<lambda>r. rule_name r = nm) (rules p) of
        Some r \<Rightarrow> Some (rule_id r)
      | None \<Rightarrow> map_of (token_ids (lexer p)) nm)"


section \<open>Properties of the subset construction\<close>

subsection \<open>Operations of the DFA\<close>

lemma wf_dfa_new: "wf_dfa K (DFA_new K n)"
  by (simp add: wf_dfa_def DFA_new_def)

lemma GetSize_new: "GetSize (DFA_new K n) = n"
  by (simp add: GetSize_def DFA_new_def)

lemma DFA_GetNext_new: "DFA_GetNext (DFA_new K n) i a = None"
  by (auto simp: DFA_GetNext_def DFA_new_def GetSize_def)

lemma DFA_IsStop_new: "DFA_IsStop (DFA_new K n) i = False"
  by (simp add: DFA_IsStop_def DFA_new_def)

lemma wf_dfa_Resize: "wf_dfa K d \<Longrightarrow> wf_dfa K (Resize K d n)"
  by (auto simp: wf_dfa_def Resize_def GetSize_def)

lemma GetSize_Resize: "GetSize (Resize K d n) = max n (GetSize d)"
  by (simp add: Resize_def GetSize_def)

lemma DFA_GetNext_Resize: "DFA_GetNext (Resize K d n) i a = DFA_GetNext d i a"
  by (auto simp: DFA_GetNext_def Resize_def GetSize_def nth_append)

lemma DFA_IsStop_Resize: "wf_dfa K d \<Longrightarrow> DFA_IsStop (Resize K d n) i = DFA_IsStop d i"
  by (auto simp: DFA_IsStop_def Resize_def GetSize_def wf_dfa_def nth_append)

lemma wf_dfa_SetStop: "wf_dfa K d \<Longrightarrow> wf_dfa K (SetStop d s)"
  by (simp add: wf_dfa_def SetStop_def)

lemma GetSize_SetStop: "GetSize (SetStop d s) = GetSize d"
  by (simp add: SetStop_def GetSize_def)

lemma DFA_GetNext_SetStop: "DFA_GetNext (SetStop d s) i a = DFA_GetNext d i a"
  by (simp add: DFA_GetNext_def SetStop_def GetSize_def)

lemma DFA_IsStop_SetStop:
  "DFA_IsStop (SetStop d s) i = ((i = s \<and> s < length (is_stop d)) \<or> DFA_IsStop d i)"
  by (cases "i = s") (auto simp: DFA_IsStop_def SetStop_def)

lemma wf_dfa_SetTransition: "wf_dfa K d \<Longrightarrow> wf_dfa K (SetTransition d f t a)"
  by (auto simp: wf_dfa_def SetTransition_def GetSize_def set_update_subset_insert
      dest!: subsetD[OF set_update_subset_insert])

lemma GetSize_SetTransition: "GetSize (SetTransition d f t a) = GetSize d"
  by (simp add: SetTransition_def GetSize_def)

lemma DFA_IsStop_SetTransition: "DFA_IsStop (SetTransition d f t a) i = DFA_IsStop d i"
  by (simp add: DFA_IsStop_def SetTransition_def)

lemma DFA_GetNext_SetTransition:
  assumes "wf_dfa K d" "f < GetSize d" "t < GetSize d" "a < K"
  shows "DFA_GetNext (SetTransition d f t a) i b
     = (if i = f \<and> b = a then Some t else DFA_GetNext d i b)"
proof -
  have len: "length (transitions d ! f) = K"
    using assms by (simp add: wf_dfa_def GetSize_def)
  show ?thesis
    using assms len
    by (auto simp: DFA_GetNext_def SetTransition_def GetSize_def nth_list_update)
qed

lemma wf_dfa_add_state: "wf_dfa K d \<Longrightarrow> wf_dfa K (add_state K nfa T d)"
  by (simp add: add_state_def wf_dfa_Resize wf_dfa_SetStop)

lemma GetSize_add_state: "GetSize (add_state K nfa T d) = GetSize d + 1"
  by (simp add: add_state_def GetSize_Resize GetSize_SetStop)

lemma DFA_GetNext_add_state: "DFA_GetNext (add_state K nfa T d) i a = DFA_GetNext d i a"
  by (simp add: add_state_def DFA_GetNext_Resize DFA_GetNext_SetStop)

lemma DFA_IsStop_beyond: "wf_dfa K d \<Longrightarrow> GetSize d \<le> i \<Longrightarrow> DFA_IsStop d i = False"
  by (simp add: DFA_IsStop_def wf_dfa_def GetSize_def)

lemma DFA_GetNext_beyond: "GetSize d \<le> i \<Longrightarrow> DFA_GetNext d i a = None"
  by (simp add: DFA_GetNext_def)

lemma DFA_IsStop_add_state:
  assumes "wf_dfa K d"
  shows "DFA_IsStop (add_state K nfa T d) i
     = (if i = GetSize d then (\<exists>s\<in>T. IsStop nfa s) else DFA_IsStop d i)"
proof -
  have len: "GetSize d < length (is_stop (Resize K d (GetSize d + 1)))"
    using assms by (simp add: Resize_def wf_dfa_def GetSize_def)
  show ?thesis
    using assms len DFA_IsStop_beyond[OF assms, of "GetSize d"]
    by (auto simp: add_state_def DFA_IsStop_SetStop DFA_IsStop_Resize)
qed

subsection \<open>The three cases of the loop body\<close>

lemma explore_sym_skip:
  "GetNext nfa a cur = {} \<Longrightarrow> \<not> kp \<Longrightarrow> explore_sym K nfa kp cur cid a st = st"
  by (simp add: explore_sym_def)

lemma explore_sym_known:
  assumes "GetNext nfa a cur \<noteq> {} \<or> kp" and "id_map st (GetNext nfa a cur) = Some v"
  shows "explore_sym K nfa kp cur cid a st = st\<lparr>dfa := SetTransition (dfa st) cid v a\<rparr>"
  using assms by (auto simp: explore_sym_def Let_def map_index_def)

lemma explore_sym_new:
  assumes "GetNext nfa a cur \<noteq> {} \<or> kp" and "id_map st (GetNext nfa a cur) = None"
  shows "explore_sym K nfa kp cur cid a st =
     \<lparr>dfa = SetTransition (add_state K nfa (GetNext nfa a cur) (dfa st)) cid (GetSize (dfa st)) a,
      id_map = (id_map st)(GetNext nfa a cur \<mapsto> GetSize (dfa st)),
      state_stack = state_stack st @ [GetNext nfa a cur]\<rparr>"
  using assms by (auto simp: explore_sym_def Let_def map_index_def add_state_def)

subsection \<open>Preservation of the invariants\<close>

lemma inv_base_known:
  assumes "inv_base K nfa kp st"
  shows "inv_base K nfa kp (st\<lparr>dfa := SetTransition (dfa st) cid v a\<rparr>)"
  using assms
  by (simp add: inv_base_def wf_dfa_SetTransition ids_ok_def stack_ok_def stop_ok_def
      nonempty_ok_def GetSize_SetTransition DFA_IsStop_SetTransition)

lemma ids_ok_new:
  assumes "ids_ok nfa st" and "id_map st T = None" and "GetSize d' = GetSize (dfa st) + 1"
  shows "ids_ok nfa \<lparr>dfa = d', id_map = (id_map st)(T \<mapsto> GetSize (dfa st)), state_stack = stk\<rparr>"
proof -
  let ?n = "GetSize (dfa st)"
  have start: "id_map st (GetStart nfa) = Some 0"
    and bound: "\<And>S i. id_map st S = Some i \<Longrightarrow> i < ?n"
    and inj: "\<And>S S' i. id_map st S = Some i \<Longrightarrow> id_map st S' = Some i \<Longrightarrow> S = S'"
    and surj: "\<And>i. i < ?n \<Longrightarrow> \<exists>S. id_map st S = Some i"
    using assms(1) unfolding ids_ok_def by blast+
  have neq: "T \<noteq> GetStart nfa" using start assms(2) by auto
  have fresh: "\<And>S. id_map st S \<noteq> Some ?n" using bound by fastforce
  have s1: "((id_map st)(T \<mapsto> ?n)) (GetStart nfa) = Some 0"
    using start neq by simp
  have s2: "\<And>S i. ((id_map st)(T \<mapsto> ?n)) S = Some i \<Longrightarrow> i < ?n + 1"
    using bound by (fastforce split: if_splits)
  have s3: "\<And>S S' i. ((id_map st)(T \<mapsto> ?n)) S = Some i
        \<Longrightarrow> ((id_map st)(T \<mapsto> ?n)) S' = Some i \<Longrightarrow> S = S'"
    using inj fresh by (auto split: if_splits)
  have s4: "\<And>i. i < ?n + 1 \<Longrightarrow> \<exists>S. ((id_map st)(T \<mapsto> ?n)) S = Some i"
  proof -
    fix i assume "i < ?n + 1"
    show "\<exists>S. ((id_map st)(T \<mapsto> ?n)) S = Some i"
    proof (cases "i = ?n")
      case True
      then show ?thesis by auto
    next
      case False
      with \<open>i < ?n + 1\<close> have "i < ?n" by simp
      then obtain S where S: "id_map st S = Some i" using surj by blast
      then have "S \<noteq> T" using assms(2) by auto
      with S show ?thesis by auto
    qed
  qed
  have sel: "id_map \<lparr>dfa = d', id_map = (id_map st)(T \<mapsto> ?n), state_stack = stk\<rparr>
        = (id_map st)(T \<mapsto> ?n)"
    "GetSize (dfa \<lparr>dfa = d', id_map = (id_map st)(T \<mapsto> ?n), state_stack = stk\<rparr>) = ?n + 1"
    using assms(3) by simp_all
  show ?thesis
    unfolding ids_ok_def sel using s1 s2 s3 s4 by blast
qed

lemma inv_base_new:
  assumes inv: "inv_base K nfa kp st"
    and none: "id_map st T = None"
    and T: "T \<noteq> {} \<or> kp"
  shows "inv_base K nfa kp
     \<lparr>dfa = SetTransition (add_state K nfa T (dfa st)) cid (GetSize (dfa st)) a,
      id_map = (id_map st)(T \<mapsto> GetSize (dfa st)),
      state_stack = state_stack st @ [T]\<rparr>"
    (is "inv_base K nfa kp ?st'")
proof -
  let ?n = "GetSize (dfa st)"
  have wf: "wf_dfa K (dfa st)" and ids: "ids_ok nfa st" and stk: "stack_ok st"
    and stp: "stop_ok nfa st" and ne: "nonempty_ok kp st"
    using inv by (simp_all add: inv_base_def)
  have bound: "\<And>S i. id_map st S = Some i \<Longrightarrow> i < ?n"
    using ids unfolding ids_ok_def by blast
  have pos: "0 < ?n"
    using ids bound unfolding ids_ok_def by blast
  have wf': "wf_dfa K (dfa ?st')"
    using wf by (simp add: wf_dfa_SetTransition wf_dfa_add_state)
  have ids': "ids_ok nfa ?st'"
    by (rule ids_ok_new[OF ids none])
      (simp add: GetSize_SetTransition GetSize_add_state)
  have notin: "T \<notin> set (state_stack st)"
    using stk none unfolding stack_ok_def by auto
  have stk': "stack_ok ?st'"
    using stk notin unfolding stack_ok_def by auto
  have st0: "\<not> DFA_IsStop (dfa st) 0"
    and stT: "\<And>X i. id_map st X = Some i \<Longrightarrow> i \<noteq> 0 \<Longrightarrow>
        DFA_IsStop (dfa st) i = (\<exists>s\<in>X. IsStop nfa s)"
    using stp unfolding stop_ok_def by blast+
  have is_stop': "\<And>i. DFA_IsStop
        (SetTransition (add_state K nfa T (dfa st)) cid (GetSize (dfa st)) a) i
      = (if i = ?n then (\<exists>s\<in>T. IsStop nfa s) else DFA_IsStop (dfa st) i)"
    using wf by (simp add: DFA_IsStop_SetTransition DFA_IsStop_add_state)
  have stp': "stop_ok nfa ?st'"
    unfolding stop_ok_def
  proof (intro conjI allI impI)
    show "\<not> DFA_IsStop (dfa ?st') 0"
      using st0 pos by (simp add: is_stop')
  next
    fix X i
    assume X: "id_map ?st' X = Some i" and i: "i \<noteq> 0"
    show "DFA_IsStop (dfa ?st') i = (\<exists>s\<in>X. IsStop nfa s)"
    proof (cases "X = T")
      case True
      then have "i = ?n" using X by simp
      then show ?thesis using True by (simp add: is_stop')
    next
      case False
      then have old: "id_map st X = Some i" using X by simp
      then have "i \<noteq> ?n" using bound by fastforce
      then show ?thesis using stT[OF old i] by (simp add: is_stop')
    qed
  qed
  have ne': "nonempty_ok kp ?st'"
    using ne T unfolding nonempty_ok_def by (auto split: if_splits)
  show ?thesis
    unfolding inv_base_def using wf' ids' stk' stp' ne' by blast
qed

lemma edge_ok_transfer:
  assumes "edge_ok nfa kp st S i a"
    and "DFA_GetNext (dfa st') i a = DFA_GetNext (dfa st) i a"
    and "\<And>X v. id_map st X = Some v \<Longrightarrow> id_map st' X = Some v"
  shows "edge_ok nfa kp st' S i a"
  using assms unfolding edge_ok_def by (auto split: if_splits)

lemma trans_ok_step:
  assumes old: "trans_ok K nfa kp (inner_upto K st cur j) st"
    and map_ext: "\<And>X v. id_map st X = Some v \<Longrightarrow> id_map st' X = Some v"
    and new_keys: "\<And>X v. id_map st' X = Some v \<Longrightarrow> id_map st X = None \<Longrightarrow>
        X \<in> set (state_stack st') \<and> X \<noteq> cur \<and> (\<forall>a. DFA_GetNext (dfa st') v a = None)"
    and stack: "\<And>X. id_map st X \<noteq> None \<Longrightarrow>
        (X \<in> set (state_stack st')) = (X \<in> set (state_stack st))"
    and cur: "id_map st cur = Some cid"
    and inj: "\<And>X. id_map st X = Some cid \<Longrightarrow> X = cur"
    and rows: "\<And>i a. i \<noteq> cid \<or> a \<noteq> j \<Longrightarrow>
        DFA_GetNext (dfa st') i a = DFA_GetNext (dfa st) i a"
    and edge: "edge_ok nfa kp st' cur cid j"
  shows "trans_ok K nfa kp (inner_upto K st' cur (Suc j)) st'"
  unfolding trans_ok_def
proof (intro allI impI)
  fix S i a
  assume S: "id_map st' S = Some i" and a: "a < K"
  show "if a < inner_upto K st' cur (Suc j) S then edge_ok nfa kp st' S i a
        else DFA_GetNext (dfa st') i a = None"
  proof (cases "id_map st S")
    case None
    from new_keys[OF S None] show ?thesis
      by (simp add: inner_upto_def outer_upto_def)
  next
    case (Some i')
    have ii: "i' = i" using map_ext[OF Some] S by simp
    have oldS: "id_map st S = Some i" using Some ii by simp
    have o: "if a < inner_upto K st cur j S then edge_ok nfa kp st S i a
        else DFA_GetNext (dfa st) i a = None"
      using old oldS a unfolding trans_ok_def by blast
    show ?thesis
    proof (cases "S = cur")
      case True
      then have icid: "i = cid" using cur oldS by simp
      show ?thesis
      proof (cases "a = j")
        case True
        then show ?thesis using edge \<open>S = cur\<close> icid by (simp add: inner_upto_def)
      next
        case False
        then have r: "DFA_GetNext (dfa st') i a = DFA_GetNext (dfa st) i a"
          using rows by blast
        show ?thesis
        proof (cases "a < j")
          case True
          then have "edge_ok nfa kp st S i a"
            using o \<open>S = cur\<close> by (simp add: inner_upto_def)
          then have "edge_ok nfa kp st' S i a"
            using r map_ext by (rule edge_ok_transfer)
          then show ?thesis using True \<open>S = cur\<close> by (simp add: inner_upto_def)
        next
          case False
          then have "DFA_GetNext (dfa st) i a = None"
            using o \<open>S = cur\<close> by (simp add: inner_upto_def)
          then show ?thesis
            using False \<open>a \<noteq> j\<close> \<open>S = cur\<close> r by (simp add: inner_upto_def)
        qed
      qed
    next
      case False
      then have "i \<noteq> cid" using inj oldS by blast
      then have r: "DFA_GetNext (dfa st') i a = DFA_GetNext (dfa st) i a"
        using rows by blast
      have u: "inner_upto K st' cur (Suc j) S = inner_upto K st cur j S"
        using False stack[of S] oldS by (simp add: inner_upto_def outer_upto_def)
      show ?thesis
      proof (cases "a < inner_upto K st cur j S")
        case True
        then have "edge_ok nfa kp st S i a" using o by simp
        then have "edge_ok nfa kp st' S i a"
          using r map_ext by (rule edge_ok_transfer)
        then show ?thesis using True u by simp
      next
        case False
        then show ?thesis using o u r by simp
      qed
    qed
  qed
qed

lemma inv_inner_step:
  assumes inv: "inv_inner K nfa kp cur cid j st" and j: "j < K"
  shows "inv_inner K nfa kp cur cid (Suc j) (explore_sym K nfa kp cur cid j st)"
proof -
  let ?T = "GetNext nfa j cur"
  let ?n = "GetSize (dfa st)"
  have base: "inv_base K nfa kp st" and cur: "id_map st cur = Some cid"
    and notin: "cur \<notin> set (state_stack st)"
    and old: "trans_ok K nfa kp (inner_upto K st cur j) st"
    using inv by (simp_all add: inv_inner_def)
  have wf: "wf_dfa K (dfa st)" and ids: "ids_ok nfa st"
    using base by (simp_all add: inv_base_def)
  have bound: "\<And>S i. id_map st S = Some i \<Longrightarrow> i < ?n"
    and inj: "\<And>S S' i. id_map st S = Some i \<Longrightarrow> id_map st S' = Some i \<Longrightarrow> S = S'"
    using ids unfolding ids_ok_def by blast+
  have injc: "\<And>X. id_map st X = Some cid \<Longrightarrow> X = cur"
    using inj cur by blast
  have cidn: "cid < ?n" using bound cur by blast
  have oldj: "DFA_GetNext (dfa st) cid j = None"
    using old cur j unfolding trans_ok_def by (fastforce simp: inner_upto_def)
  show ?thesis
  proof (cases "?T = {} \<and> \<not> kp")
    case True
    then have e: "explore_sym K nfa kp cur cid j st = st"
      by (simp add: explore_sym_skip)
    have edge: "edge_ok nfa kp st cur cid j"
      using True oldj by (simp add: edge_ok_def)
    have "trans_ok K nfa kp (inner_upto K st cur (Suc j)) st"
      by (rule trans_ok_step[OF old _ _ _ cur injc _ edge]) simp_all
    then show ?thesis
      unfolding e inv_inner_def using base cur notin by simp
  next
    case False
    then have T: "?T \<noteq> {} \<or> kp" by blast
    show ?thesis
    proof (cases "id_map st ?T")
      case (Some v)
      let ?st' = "st\<lparr>dfa := SetTransition (dfa st) cid v j\<rparr>"
      have e: "explore_sym K nfa kp cur cid j st = ?st'"
        by (rule explore_sym_known[OF T Some])
      have vn: "v < ?n" using bound Some by blast
      have nxt: "\<And>i a. DFA_GetNext (SetTransition (dfa st) cid v j) i a
          = (if i = cid \<and> a = j then Some v else DFA_GetNext (dfa st) i a)"
        by (rule DFA_GetNext_SetTransition[OF wf cidn vn j])
      have edge: "edge_ok nfa kp ?st' cur cid j"
        using T Some by (auto simp: edge_ok_def nxt)
      have "trans_ok K nfa kp (inner_upto K ?st' cur (Suc j)) ?st'"
      proof (rule trans_ok_step[OF old _ _ _ cur injc _ edge])
        fix i a assume "i \<noteq> cid \<or> a \<noteq> j"
        then show "DFA_GetNext (dfa ?st') i a = DFA_GetNext (dfa st) i a"
          by (auto simp: nxt)
      qed simp_all
      then show ?thesis
        unfolding e inv_inner_def using inv_base_known[OF base] cur notin by simp
    next
      case None
      let ?d' = "SetTransition (add_state K nfa ?T (dfa st)) cid ?n j"
      let ?st' = "\<lparr>dfa = ?d', id_map = (id_map st)(?T \<mapsto> ?n),
          state_stack = state_stack st @ [?T]\<rparr>"
      have e: "explore_sym K nfa kp cur cid j st = ?st'"
        by (rule explore_sym_new[OF T None])
      have curT: "cur \<noteq> ?T" using None cur by auto
      have nxt: "\<And>i a. DFA_GetNext ?d' i a
          = (if i = cid \<and> a = j then Some ?n else DFA_GetNext (dfa st) i a)"
        using DFA_GetNext_SetTransition[OF wf_dfa_add_state[OF wf], of cid nfa ?T ?n j] cidn j
        by (simp add: GetSize_add_state DFA_GetNext_add_state)
      have edge: "edge_ok nfa kp ?st' cur cid j"
        using T by (auto simp: edge_ok_def nxt)
      have "trans_ok K nfa kp (inner_upto K ?st' cur (Suc j)) ?st'"
      proof (rule trans_ok_step[OF old _ _ _ cur injc _ edge])
        fix X v assume "id_map st X = Some v"
        then show "id_map ?st' X = Some v" using None by auto
      next
        fix X v assume a1: "id_map ?st' X = Some v" and a2: "id_map st X = None"
        then have X: "X = ?T" and v: "v = ?n" by (auto split: if_splits)
        have "\<And>a. DFA_GetNext ?d' ?n a = None"
          using cidn by (simp add: nxt DFA_GetNext_beyond)
        then show "X \<in> set (state_stack ?st') \<and> X \<noteq> cur
            \<and> (\<forall>a. DFA_GetNext (dfa ?st') v a = None)"
          using X v curT by simp
      next
        fix X assume "id_map st X \<noteq> None"
        then have "X \<noteq> ?T" using None by auto
        then show "(X \<in> set (state_stack ?st')) = (X \<in> set (state_stack st))"
          by simp
      next
        fix i a assume "i \<noteq> cid \<or> a \<noteq> j"
        then show "DFA_GetNext (dfa ?st') i a = DFA_GetNext (dfa st) i a"
          by (auto simp: nxt)
      qed
      moreover have "inv_base K nfa kp ?st'"
        by (rule inv_base_new[OF base None T])
      ultimately show ?thesis
        unfolding e inv_inner_def using cur notin curT by simp
    qed
  qed
qed

lemma inv_inner_fold:
  assumes "inv_inner K nfa kp cur cid 0 st" and "j \<le> K"
  shows "inv_inner K nfa kp cur cid j (fold (explore_sym K nfa kp cur cid) [0..<j] st)"
  using assms(2)
proof (induction j)
  case 0
  show ?case using assms(1) by simp
next
  case (Suc j)
  then have "inv_inner K nfa kp cur cid j (fold (explore_sym K nfa kp cur cid) [0..<j] st)"
    and "j < K" by simp_all
  from inv_inner_step[OF this] show ?case by simp
qed

lemma inv_outer_explore_set:
  assumes inv: "inv_outer K nfa kp st" and ne: "state_stack st \<noteq> []"
  shows "inv_outer K nfa kp (explore_set K nfa kp st)"
proof -
  let ?cur = "last (state_stack st)"
  let ?st0 = "st\<lparr>state_stack := butlast (state_stack st)\<rparr>"
  have base: "inv_base K nfa kp st" and tr: "trans_ok K nfa kp (outer_upto K st) st"
    using inv by (simp_all add: inv_outer_def)
  have stk: "stack_ok st" using base by (simp add: inv_base_def)
  have "?cur \<in> set (state_stack st)" using ne by simp
  then obtain cid where cid: "id_map st ?cur = Some cid"
    using stk unfolding stack_ok_def by blast
  have mi: "map_index (id_map st) ?cur = (cid, id_map st)"
    using cid by (simp add: map_index_def)
  have e: "explore_set K nfa kp st = fold (explore_sym K nfa kp ?cur cid) [0..<K] ?st0"
    by (simp add: explore_set_def Let_def mi)
  have split: "state_stack st = butlast (state_stack st) @ [?cur]"
    using ne by simp
  have dist: "distinct (butlast (state_stack st) @ [?cur])"
    using stk split unfolding stack_ok_def by simp
  have notin: "?cur \<notin> set (butlast (state_stack st))"
    using dist by simp
  have mem: "\<And>S. S \<in> set (state_stack st) \<longleftrightarrow> S = ?cur \<or> S \<in> set (butlast (state_stack st))"
    by (subst split) auto
  have stk0: "stack_ok ?st0"
    using stk mem unfolding stack_ok_def by (auto simp: distinct_butlast)
  have base0: "inv_base K nfa kp ?st0"
    using base stk0
    unfolding inv_base_def ids_ok_def stop_ok_def nonempty_ok_def
    by simp
  have up: "inner_upto K ?st0 ?cur 0 = outer_upto K st"
    using mem by (auto simp: inner_upto_def outer_upto_def fun_eq_iff)
  have tr0: "trans_ok K nfa kp (inner_upto K ?st0 ?cur 0) ?st0"
    using tr unfolding up trans_ok_def edge_ok_def by simp
  have "inv_inner K nfa kp ?cur cid 0 ?st0"
    unfolding inv_inner_def using base0 cid notin tr0 by simp
  from inv_inner_fold[OF this order_refl]
  have fin: "inv_inner K nfa kp ?cur cid K (explore_set K nfa kp st)"
    by (simp add: e)
  let ?st' = "explore_set K nfa kp st"
  have "inner_upto K ?st' ?cur K = outer_upto K ?st'"
    using fin by (auto simp: inner_upto_def outer_upto_def inv_inner_def fun_eq_iff)
  then show ?thesis
    using fin by (simp add: inv_inner_def inv_outer_def)
qed

lemma inv_outer_explore_loop:
  "inv_outer K nfa kp st \<Longrightarrow> inv_outer K nfa kp (explore_loop K nfa kp st)"
proof (induction K nfa kp st rule: explore_loop.induct)
  case (1 K nfa kp st)
  show ?case
  proof (cases "state_stack st = []")
    case True
    then show ?thesis using "1.prems" by simp
  next
    case False
    have "inv_outer K nfa kp (explore_set K nfa kp st)"
      by (rule inv_outer_explore_set[OF "1.prems" False])
    from "1.IH"[OF False this] show ?thesis
      using False by simp
  qed
qed

lemma explore_loop_stack_empty: "state_stack (explore_loop K nfa kp st) = []"
proof (induction K nfa kp st rule: explore_loop.induct)
  case (1 K nfa kp st)
  show ?case
  proof (cases "state_stack st = []")
    case True
    then show ?thesis by simp
  next
    case False
    from "1.IH"[OF False] show ?thesis using False by simp
  qed
qed

lemma inv_outer_init: "inv_outer K nfa kp (to_DFA_init K nfa)"
  unfolding inv_outer_def inv_base_def to_DFA_init_def
proof (intro conjI)
  show "wf_dfa K (dfa \<lparr>dfa = DFA_new K 1, id_map = [GetStart nfa \<mapsto> 0],
      state_stack = [GetStart nfa]\<rparr>)"
    by (simp add: wf_dfa_new)
  show "ids_ok nfa \<lparr>dfa = DFA_new K 1, id_map = [GetStart nfa \<mapsto> 0],
      state_stack = [GetStart nfa]\<rparr>"
    by (auto simp: ids_ok_def GetSize_new split: if_splits)
  show "stack_ok \<lparr>dfa = DFA_new K 1, id_map = [GetStart nfa \<mapsto> 0],
      state_stack = [GetStart nfa]\<rparr>"
    by (simp add: stack_ok_def)
  show "stop_ok nfa \<lparr>dfa = DFA_new K 1, id_map = [GetStart nfa \<mapsto> 0],
      state_stack = [GetStart nfa]\<rparr>"
    by (auto simp: stop_ok_def DFA_IsStop_new split: if_splits)
  show "nonempty_ok kp \<lparr>dfa = DFA_new K 1, id_map = [GetStart nfa \<mapsto> 0],
      state_stack = [GetStart nfa]\<rparr>"
    by (auto simp: nonempty_ok_def split: if_splits)
  show "trans_ok K nfa kp (outer_upto K \<lparr>dfa = DFA_new K 1, id_map = [GetStart nfa \<mapsto> 0],
      state_stack = [GetStart nfa]\<rparr>) \<lparr>dfa = DFA_new K 1, id_map = [GetStart nfa \<mapsto> 0],
      state_stack = [GetStart nfa]\<rparr>"
    by (auto simp: trans_ok_def outer_upto_def DFA_GetNext_new split: if_splits)
qed

lemma inv_outer_run: "inv_outer K nfa kp (to_DFA_run K nfa kp)"
  unfolding to_DFA_run_def by (rule inv_outer_explore_loop[OF inv_outer_init])

lemma run_stack_empty: "state_stack (to_DFA_run K nfa kp) = []"
  unfolding to_DFA_run_def by (rule explore_loop_stack_empty)

subsection \<open>The returned DFA\<close>

lemma final_edges:
  assumes "id_map (to_DFA_run K nfa kp) S = Some i" and "a < K"
  shows "edge_ok nfa kp (to_DFA_run K nfa kp) S i a"
proof -
  have "trans_ok K nfa kp (outer_upto K (to_DFA_run K nfa kp)) (to_DFA_run K nfa kp)"
    using inv_outer_run[of K nfa kp] by (simp add: inv_outer_def)
  then show ?thesis
    using assms unfolding trans_ok_def
    by (fastforce simp: outer_upto_def run_stack_empty)
qed

lemma final_base: "inv_base K nfa kp (to_DFA_run K nfa kp)"
  using inv_outer_run[of K nfa kp] by (simp add: inv_outer_def)

lemma ids_ok_card:
  assumes "ids_ok nfa st"
  shows "card (dom (id_map st)) = GetSize (dfa st)"
proof -
  let ?f = "\<lambda>S. the (id_map st S)"
  have bound: "\<And>S i. id_map st S = Some i \<Longrightarrow> i < GetSize (dfa st)"
    and inj: "\<And>S S' i. id_map st S = Some i \<Longrightarrow> id_map st S' = Some i \<Longrightarrow> S = S'"
    and surj: "\<And>i. i < GetSize (dfa st) \<Longrightarrow> \<exists>S. id_map st S = Some i"
    using assms unfolding ids_ok_def by blast+
  have "inj_on ?f (dom (id_map st))"
  proof (rule inj_onI)
    fix x y
    assume "x \<in> dom (id_map st)" and "y \<in> dom (id_map st)" and "?f x = ?f y"
    then obtain i where "id_map st x = Some i" and "id_map st y = Some i" by force
    then show "x = y" by (rule inj)
  qed
  moreover have "?f ` dom (id_map st) = {..<GetSize (dfa st)}"
  proof (rule set_eqI)
    fix i
    show "i \<in> ?f ` dom (id_map st) \<longleftrightarrow> i \<in> {..<GetSize (dfa st)}"
    proof
      assume "i \<in> ?f ` dom (id_map st)"
      then show "i \<in> {..<GetSize (dfa st)}" using bound by auto
    next
      assume "i \<in> {..<GetSize (dfa st)}"
      then obtain S where "id_map st S = Some i" using surj by auto
      then have "S \<in> dom (id_map st)" and "?f S = i" by auto
      then show "i \<in> ?f ` dom (id_map st)" by blast
    qed
  qed
  ultimately have "card (dom (id_map st)) = card {..<GetSize (dfa st)}"
    using card_image by metis
  then show ?thesis by simp
qed

text \<open>
  C5. \<open>to_DFA\<close> never gives one set of NFA states two DFA states. For two explorations,
  of the set \<open>S\<close> (DFA state \<open>i\<close>) on the symbol \<open>a\<close> and of the set \<open>S'\<close> (DFA state
  \<open>i'\<close>) on the symbol \<open>b\<close>, that compute the same successor set (not discarded as
  empty), both recorded transitions lead to the one DFA state \<open>id_map\<close> holds for that
  set. Distinct sets have distinct states, and the DFA has as many states as \<open>id_map\<close>
  has sets.
\<close>

theorem to_DFA_equal_sets_share_state:
  assumes S: "id_map (to_DFA_run K nfa kp) S = Some i"
    and S': "id_map (to_DFA_run K nfa kp) S' = Some i'"
    and a: "a < K" and b: "b < K"
    and eq: "GetNext nfa a S = GetNext nfa b S'"
    and T: "GetNext nfa a S \<noteq> {} \<or> kp"
  shows "(\<exists>t. id_map (to_DFA_run K nfa kp) (GetNext nfa a S) = Some t
            \<and> DFA_GetNext (to_DFA K nfa kp) i a = Some t
            \<and> DFA_GetNext (to_DFA K nfa kp) i' b = Some t)
       \<and> (i = i') = (S = S')
       \<and> card (dom (id_map (to_DFA_run K nfa kp))) = GetSize (to_DFA K nfa kp)"
proof -
  let ?fin = "to_DFA_run K nfa kp"
  have e1: "edge_ok nfa kp ?fin S i a" by (rule final_edges[OF S a])
  have e2: "edge_ok nfa kp ?fin S' i' b" by (rule final_edges[OF S' b])
  have ids: "ids_ok nfa ?fin" using final_base[of K nfa kp] by (simp add: inv_base_def)
  obtain t where t: "id_map ?fin (GetNext nfa a S) = Some t"
    using e1 T unfolding edge_ok_def by (auto split: if_splits)
  have "DFA_GetNext (dfa ?fin) i a = Some t"
    using e1 T t unfolding edge_ok_def by (auto split: if_splits)
  moreover have "DFA_GetNext (dfa ?fin) i' b = Some t"
    using e2 T t eq unfolding edge_ok_def by (auto split: if_splits)
  moreover have "(i = i') = (S = S')"
  proof
    assume "i = i'"
    then show "S = S'" using ids S S' unfolding ids_ok_def by blast
  next
    assume "S = S'"
    then show "i = i'" using S S' by simp
  qed
  ultimately show ?thesis
    using t ids_ok_card[OF ids] by (simp add: to_DFA_def)
qed

theorem to_DFA_equal_sets_share_state_witness:
  "id_map (to_DFA_run 2 ab_nfa False) {0} = Some 0
   \<and> id_map (to_DFA_run 2 ab_nfa False) {0, 1} = Some 1
   \<and> GetNext ab_nfa 0 {0} = {0, 1} \<and> GetNext ab_nfa 0 {0, 1} = {0, 1}
   \<and> DFA_GetNext (to_DFA 2 ab_nfa False) 0 0 = Some 1
   \<and> DFA_GetNext (to_DFA 2 ab_nfa False) 1 0 = Some 1
   \<and> card (dom (id_map (to_DFA_run 2 ab_nfa False))) = 3"
proof -
  have h1: "id_map (to_DFA_run 2 ab_nfa False) {0} = Some 0" by code_simp
  have h2: "id_map (to_DFA_run 2 ab_nfa False) {0, 1} = Some 1" by code_simp
  have g1: "GetNext ab_nfa 0 {0} = {0, 1}" by code_simp
  have g2: "GetNext ab_nfa 0 {0, 1} = {0, 1}" by code_simp
  have sz: "GetSize (to_DFA 2 ab_nfa False) = 3" by code_simp
  have h3: "(0::nat) < 2" by simp
  have h5: "GetNext ab_nfa 0 {0} = GetNext ab_nfa 0 {0, 1}" using g1 g2 by simp
  have h6: "GetNext ab_nfa 0 {0} \<noteq> {} \<or> False" using g1 by simp
  from to_DFA_equal_sets_share_state[OF h1 h2 h3 h3 h5 h6]
  show ?thesis using h1 h2 g1 g2 sz by simp
qed

text \<open>
  C6. Every DFA state allocated in the loop (every state but state 0), for the successor
  set \<open>T\<close>, is accepting if and only if some NFA state in \<open>T\<close> is accepting.
\<close>

theorem to_DFA_new_state_stop_iff:
  assumes "id_map (to_DFA_run K nfa kp) T = Some i" and "i \<noteq> 0"
  shows "DFA_IsStop (to_DFA K nfa kp) i = (\<exists>s\<in>T. IsStop nfa s)"
proof -
  have "stop_ok nfa (to_DFA_run K nfa kp)"
    using final_base[of K nfa kp] by (simp add: inv_base_def)
  then show ?thesis
    using assms unfolding stop_ok_def to_DFA_def by blast
qed

theorem to_DFA_new_state_stop_iff_witness:
  "id_map (to_DFA_run 2 ab_nfa False) {2} = Some 2
   \<and> IsStop ab_nfa 2 \<and> DFA_IsStop (to_DFA 2 ab_nfa False) 2"
proof -
  have h1: "id_map (to_DFA_run 2 ab_nfa False) {2} = Some 2" by code_simp
  have h2: "(2::nat) \<noteq> 0" by simp
  have s: "IsStop ab_nfa 2" by code_simp
  from to_DFA_new_state_stop_iff[OF h1 h2]
  show ?thesis using h1 s by simp
qed

text \<open>
  C8. With \<open>keep_invalid\<close> false: when \<open>GetNext(a, S)\<close> is empty for a set \<open>S\<close> that was
  explored (DFA state \<open>i\<close>), the returned DFA has no transition from \<open>i\<close> on \<open>a\<close>, and
  no DFA state was allocated for the empty set: \<open>id_map\<close> holds the empty set only if it
  is the start set itself, seeded with the index 0 before the loop.
\<close>

theorem to_DFA_discards_empty_successor:
  assumes S: "id_map (to_DFA_run K nfa False) S = Some i"
    and a: "a < K" and empty: "GetNext nfa a S = {}"
  shows "DFA_GetNext (to_DFA K nfa False) i a = None
       \<and> id_map (to_DFA_run K nfa False) {} = (if GetStart nfa = {} then Some 0 else None)"
proof -
  let ?fin = "to_DFA_run K nfa False"
  have "edge_ok nfa False ?fin S i a" by (rule final_edges[OF S a])
  then have g: "DFA_GetNext (to_DFA K nfa False) i a = None"
    using empty by (simp add: edge_ok_def to_DFA_def)
  have ids: "ids_ok nfa ?fin" and ne: "nonempty_ok False ?fin"
    using final_base[of K nfa False] by (simp_all add: inv_base_def)
  have start: "id_map ?fin (GetStart nfa) = Some 0"
    using ids unfolding ids_ok_def by blast
  have m: "id_map ?fin {} = (if GetStart nfa = {} then Some 0 else None)"
  proof (cases "GetStart nfa = {}")
    case True
    then show ?thesis using start by simp
  next
    case False
    have "id_map ?fin {} = None"
    proof (cases "id_map ?fin {}")
      case None
      then show ?thesis .
    next
      case (Some j)
      have "j = 0" using ne Some unfolding nonempty_ok_def by blast
      then have "{} = GetStart nfa"
        using ids Some start unfolding ids_ok_def by blast
      then show ?thesis using False by simp
    qed
    then show ?thesis using False by simp
  qed
  show ?thesis using g m by simp
qed

theorem to_DFA_discards_empty_successor_witness:
  "id_map (to_DFA_run 2 ab_nfa False) {0} = Some 0
   \<and> GetNext ab_nfa 1 {0} = {}
   \<and> DFA_GetNext (to_DFA 2 ab_nfa False) 0 1 = None
   \<and> id_map (to_DFA_run 2 ab_nfa False) {} = None"
proof -
  have h1: "id_map (to_DFA_run 2 ab_nfa False) {0} = Some 0" by code_simp
  have h2: "(1::nat) < 2" by simp
  have h3: "GetNext ab_nfa 1 {0} = {}" by code_simp
  have s: "GetStart ab_nfa \<noteq> {}" by code_simp
  from to_DFA_discards_empty_successor[OF h1 h2 h3]
  show ?thesis using h1 h3 s by simp
qed

text \<open>
  C9. State 0 of the DFA that \<open>to_DFA\<close> returns is never accepting, for any NFA (also one
  whose start set holds an accepting state), so the DFA rejects the empty word.
\<close>

theorem to_DFA_start_never_stop:
  "DFA_IsStop (to_DFA K nfa kp) 0 = False \<and> DFA_accepts (to_DFA K nfa kp) [] = False"
proof -
  have "stop_ok nfa (to_DFA_run K nfa kp)"
    using final_base[of K nfa kp] by (simp add: inv_base_def)
  then have "\<not> DFA_IsStop (to_DFA K nfa kp) 0"
    unfolding stop_ok_def to_DFA_def by blast
  then show ?thesis by (simp add: DFA_accepts_def)
qed

theorem to_DFA_start_never_stop_witness:
  "0 \<in> GetStart loop_nfa \<and> IsStop loop_nfa 0
   \<and> DFA_IsStop (to_DFA 2 loop_nfa False) 0 = False
   \<and> DFA_accepts (to_DFA 2 loop_nfa False) [] = False"
proof -
  have a: "0 \<in> GetStart loop_nfa" by code_simp
  have b: "IsStop loop_nfa 0" by code_simp
  from to_DFA_start_never_stop[of 2 loop_nfa False]
  show ?thesis using a b by simp
qed

subsection \<open>Size bound and number of iterations\<close>

lemma nfa_targets_bound: "wf_nfa nfa \<Longrightarrow> nfa_targets nfa \<subseteq> {..<length (nfa_states nfa)}"
  by (auto simp: wf_nfa_def nfa_targets_def)

lemma GetNext_bound: "wf_nfa nfa \<Longrightarrow> GetNext nfa a S \<subseteq> {..<length (nfa_states nfa)}"
  using GetNext_subset[of nfa a S] nfa_targets_bound[of nfa] by blast

lemma sets_ok_explore_sym:
  assumes "wf_nfa nfa" and "sets_ok nfa st"
  shows "sets_ok nfa (explore_sym K nfa kp cur cid a st)"
proof (cases "GetNext nfa a cur = {} \<and> \<not> kp")
  case True
  then show ?thesis using assms(2) by (simp add: explore_sym_skip)
next
  case False
  then have T: "GetNext nfa a cur \<noteq> {} \<or> kp" by blast
  show ?thesis
  proof (cases "id_map st (GetNext nfa a cur)")
    case None
    show ?thesis
      using assms(2) GetNext_bound[OF assms(1), of a cur]
      by (simp add: explore_sym_new[OF T None] sets_ok_def)
  next
    case (Some v)
    show ?thesis
      using assms(2) by (simp add: explore_sym_known[OF T Some] sets_ok_def)
  qed
qed

lemma sets_ok_fold:
  assumes "wf_nfa nfa"
  shows "sets_ok nfa st \<Longrightarrow> sets_ok nfa (fold (explore_sym K nfa kp cur cid) xs st)"
  by (induction xs arbitrary: st) (simp_all add: sets_ok_explore_sym[OF assms])

lemma sets_ok_explore_set:
  assumes "wf_nfa nfa" and "sets_ok nfa st" and "stack_ok st" and "state_stack st \<noteq> []"
  shows "sets_ok nfa (explore_set K nfa kp st)"
proof -
  let ?cur = "last (state_stack st)"
  let ?r = "map_index (id_map st) ?cur"
  let ?st0 = "st\<lparr>id_map := snd ?r, state_stack := butlast (state_stack st)\<rparr>"
  have "?cur \<in> set (state_stack st)" using assms(4) by simp
  then obtain v where "id_map st ?cur = Some v"
    using assms(3) unfolding stack_ok_def by blast
  then have "sets_ok nfa ?st0"
    using assms(2) by (simp add: sets_ok_def map_index_def)
  then show ?thesis
    unfolding explore_set_def Let_def by (rule sets_ok_fold[OF assms(1)])
qed

lemma sets_ok_explore_loop:
  "inv_outer K nfa kp st \<Longrightarrow> sets_ok nfa st \<Longrightarrow> wf_nfa nfa
     \<Longrightarrow> sets_ok nfa (explore_loop K nfa kp st)"
proof (induction K nfa kp st rule: explore_loop.induct)
  case (1 K nfa kp st)
  show ?case
  proof (cases "state_stack st = []")
    case True
    then show ?thesis using "1.prems" by simp
  next
    case False
    have stk: "stack_ok st" using "1.prems"(1) by (simp add: inv_outer_def inv_base_def)
    have a: "inv_outer K nfa kp (explore_set K nfa kp st)"
      by (rule inv_outer_explore_set[OF "1.prems"(1) False])
    have b: "sets_ok nfa (explore_set K nfa kp st)"
      by (rule sets_ok_explore_set[OF "1.prems"(3) "1.prems"(2) stk False])
    from "1.IH"[OF False a b "1.prems"(3)] show ?thesis
      using False by simp
  qed
qed

lemma sets_ok_init: "wf_nfa nfa \<Longrightarrow> sets_ok nfa (to_DFA_init K nfa)"
  by (auto simp: sets_ok_def to_DFA_init_def wf_nfa_def GetStart_def split: if_splits)

lemma to_DFA_size_bound:
  assumes "wf_nfa nfa"
  shows "GetSize (to_DFA K nfa kp) \<le> 2 ^ length (nfa_states nfa)"
proof -
  let ?fin = "to_DFA_run K nfa kp"
  have "sets_ok nfa ?fin"
    unfolding to_DFA_run_def
    by (rule sets_ok_explore_loop[OF inv_outer_init sets_ok_init[OF assms] assms])
  then have sub: "dom (id_map ?fin) \<subseteq> Pow {..<length (nfa_states nfa)}"
    by (simp add: sets_ok_def)
  have "card (dom (id_map ?fin)) \<le> card (Pow {..<length (nfa_states nfa)})"
    by (rule card_mono[OF _ sub]) simp
  moreover have "ids_ok nfa ?fin"
    using final_base[of K nfa kp] by (simp add: inv_base_def)
  then have "card (dom (id_map ?fin)) = GetSize (dfa ?fin)"
    by (rule ids_ok_card)
  ultimately show ?thesis
    by (simp add: to_DFA_def card_Pow)
qed

lemma explore_sym_count:
  "GetSize (dfa (explore_sym K nfa kp cur cid a st)) + length (state_stack st)
     = GetSize (dfa st) + length (state_stack (explore_sym K nfa kp cur cid a st))"
proof (cases "GetNext nfa a cur = {} \<and> \<not> kp")
  case True
  then show ?thesis by (simp add: explore_sym_skip)
next
  case False
  then have T: "GetNext nfa a cur \<noteq> {} \<or> kp" by blast
  show ?thesis
  proof (cases "id_map st (GetNext nfa a cur)")
    case None
    show ?thesis
      by (simp add: explore_sym_new[OF T None] GetSize_SetTransition GetSize_add_state)
  next
    case (Some v)
    show ?thesis
      by (simp add: explore_sym_known[OF T Some] GetSize_SetTransition)
  qed
qed

lemma fold_explore_sym_count:
  "GetSize (dfa (fold (explore_sym K nfa kp cur cid) xs st)) + length (state_stack st)
     = GetSize (dfa st) + length (state_stack (fold (explore_sym K nfa kp cur cid) xs st))"
proof (induction xs arbitrary: st)
  case Nil
  show ?case by simp
next
  case (Cons x xs)
  show ?case
    using Cons.IH[of "explore_sym K nfa kp cur cid x st"]
      explore_sym_count[of K nfa kp cur cid x st]
    by simp
qed

lemma explore_set_count:
  assumes "state_stack st \<noteq> []"
  shows "GetSize (dfa (explore_set K nfa kp st)) + length (state_stack st)
     = GetSize (dfa st) + length (state_stack (explore_set K nfa kp st)) + 1"
proof -
  let ?cur = "last (state_stack st)"
  let ?r = "map_index (id_map st) ?cur"
  let ?st0 = "st\<lparr>id_map := snd ?r, state_stack := butlast (state_stack st)\<rparr>"
  have e: "explore_set K nfa kp st = fold (explore_sym K nfa kp ?cur (fst ?r)) [0..<K] ?st0"
    by (simp add: explore_set_def Let_def)
  have "length (state_stack st) = length (state_stack ?st0) + 1"
    using assms by (simp add: Suc_leI le_simps)
  then show ?thesis
    using fold_explore_sym_count[of K nfa kp ?cur "fst ?r" "[0..<K]" ?st0]
    unfolding e by simp
qed

lemma explore_loop_iterations:
  "\<exists>n. explore_loop K nfa kp st = (explore_set K nfa kp ^^ n) st
      \<and> (\<forall>m<n. state_stack ((explore_set K nfa kp ^^ m) st) \<noteq> [])
      \<and> n + GetSize (dfa st)
          = GetSize (dfa (explore_loop K nfa kp st)) + length (state_stack st)"
proof (induction K nfa kp st rule: explore_loop.induct)
  case (1 K nfa kp st)
  show ?case
  proof (cases "state_stack st = []")
    case True
    then have "explore_loop K nfa kp st = (explore_set K nfa kp ^^ 0) st
      \<and> (\<forall>m<0. state_stack ((explore_set K nfa kp ^^ m) st) \<noteq> [])
      \<and> 0 + GetSize (dfa st)
          = GetSize (dfa (explore_loop K nfa kp st)) + length (state_stack st)"
      by simp
    then show ?thesis by blast
  next
    case False
    let ?st1 = "explore_set K nfa kp st"
    from "1.IH"[OF False] obtain n where
      n1: "explore_loop K nfa kp ?st1 = (explore_set K nfa kp ^^ n) ?st1"
      and n2: "\<forall>m<n. state_stack ((explore_set K nfa kp ^^ m) ?st1) \<noteq> []"
      and n3: "n + GetSize (dfa ?st1)
          = GetSize (dfa (explore_loop K nfa kp ?st1)) + length (state_stack ?st1)"
      by blast
    have l: "explore_loop K nfa kp st = explore_loop K nfa kp ?st1"
      using False by simp
    have p: "\<And>m. (explore_set K nfa kp ^^ Suc m) st = (explore_set K nfa kp ^^ m) ?st1"
      by (simp add: funpow_swap1)
    have a: "explore_loop K nfa kp st = (explore_set K nfa kp ^^ Suc n) st"
      unfolding p l by (rule n1)
    have b: "\<forall>m<Suc n. state_stack ((explore_set K nfa kp ^^ m) st) \<noteq> []"
    proof (intro allI impI)
      fix m assume m: "m < Suc n"
      show "state_stack ((explore_set K nfa kp ^^ m) st) \<noteq> []"
      proof (cases m)
        case 0
        then show ?thesis using False by simp
      next
        case (Suc m')
        then have "m' < n" using m by simp
        then show ?thesis using n2 unfolding Suc p by blast
      qed
    qed
    have c: "Suc n + GetSize (dfa st)
          = GetSize (dfa (explore_loop K nfa kp st)) + length (state_stack st)"
      using n3 explore_set_count[OF False, of K nfa kp] unfolding l by linarith
    show ?thesis using a b c by blast
  qed
qed

text \<open>
  C7. For an NFA with \<open>n\<close> states (well formed: destinations and start states are state
  indices), the DFA of \<open>to_DFA\<close> has at most \<open>2 ^ n\<close> states, and the loop ends: after
  some number \<open>k \<le> 2 ^ n\<close> of iterations of its body, starting from the state before the
  loop, the work-list is empty for the first time, and the state then is what \<open>to_DFA\<close>
  returns from. (\<open>explore_loop\<close> is moreover a total function, by its termination proof,
  for any NFA.)
\<close>

theorem to_DFA_terminates_within_bound:
  assumes "wf_nfa nfa"
  shows "GetSize (to_DFA K nfa kp) \<le> 2 ^ length (nfa_states nfa)
     \<and> (\<exists>n. n \<le> 2 ^ length (nfa_states nfa)
          \<and> to_DFA_run K nfa kp = (explore_set K nfa kp ^^ n) (to_DFA_init K nfa)
          \<and> (\<forall>m<n. state_stack ((explore_set K nfa kp ^^ m) (to_DFA_init K nfa)) \<noteq> [])
          \<and> state_stack ((explore_set K nfa kp ^^ n) (to_DFA_init K nfa)) = [])"
proof -
  obtain n where
    n1: "to_DFA_run K nfa kp = (explore_set K nfa kp ^^ n) (to_DFA_init K nfa)"
    and n2: "\<forall>m<n. state_stack ((explore_set K nfa kp ^^ m) (to_DFA_init K nfa)) \<noteq> []"
    and n3: "n + GetSize (dfa (to_DFA_init K nfa))
       = GetSize (dfa (to_DFA_run K nfa kp)) + length (state_stack (to_DFA_init K nfa))"
    using explore_loop_iterations[of K nfa kp "to_DFA_init K nfa"]
    unfolding to_DFA_run_def by blast
  have "n = GetSize (to_DFA K nfa kp)"
    using n3 by (simp add: to_DFA_init_def GetSize_new to_DFA_def)
  then have n4: "n \<le> 2 ^ length (nfa_states nfa)"
    using to_DFA_size_bound[OF assms, of K kp] by simp
  have n5: "state_stack ((explore_set K nfa kp ^^ n) (to_DFA_init K nfa)) = []"
    using run_stack_empty[of K nfa kp] unfolding n1 .
  show ?thesis
    using to_DFA_size_bound[OF assms, of K kp] n1 n2 n4 n5 by blast
qed

theorem to_DFA_terminates_within_bound_witness:
  "wf_nfa ab_nfa \<and> length (nfa_states ab_nfa) = 3 \<and> GetSize (to_DFA 2 ab_nfa False) \<le> 8"
proof -
  have h: "wf_nfa ab_nfa" by code_simp
  have l: "length (nfa_states ab_nfa) = 3" by code_simp
  from to_DFA_terminates_within_bound[OF h, of 2 False]
  show ?thesis using h l by simp
qed

subsection \<open>Accepted words\<close>

lemma GetNext_empty: "GetNext nfa a {} = {}"
  by (simp add: GetNext_def)

lemma foldl_GetNext_empty: "foldl (\<lambda>S a. GetNext nfa a S) {} w = {}"
  by (induction w) (simp_all add: GetNext_empty)

lemma run_from_state:
  assumes "\<forall>a\<in>set w. a < K"
  shows "id_map (to_DFA_run K nfa kp) S = Some i \<Longrightarrow>
     (case DFA_run (to_DFA K nfa kp) i w of None \<Rightarrow> False
      | Some s \<Rightarrow> DFA_IsStop (to_DFA K nfa kp) s)
     = (foldl (\<lambda>S a. GetNext nfa a S) S w \<noteq> GetStart nfa
        \<and> (\<exists>s\<in>foldl (\<lambda>S a. GetNext nfa a S) S w. IsStop nfa s))"
  using assms
proof (induction w arbitrary: S i)
  case Nil
  let ?fin = "to_DFA_run K nfa kp"
  have ids: "ids_ok nfa ?fin" and stp: "stop_ok nfa ?fin"
    using final_base[of K nfa kp] by (simp_all add: inv_base_def)
  have start: "id_map ?fin (GetStart nfa) = Some 0"
    using ids unfolding ids_ok_def by blast
  show ?case
  proof (cases "i = 0")
    case True
    then have "S = GetStart nfa"
      using ids Nil.prems(1) start unfolding ids_ok_def by blast
    moreover have "\<not> DFA_IsStop (to_DFA K nfa kp) 0"
      using stp unfolding stop_ok_def to_DFA_def by blast
    ultimately show ?thesis using True by simp
  next
    case False
    then have "S \<noteq> GetStart nfa"
      using Nil.prems(1) start by auto
    moreover have "DFA_IsStop (to_DFA K nfa kp) i = (\<exists>s\<in>S. IsStop nfa s)"
      using stp Nil.prems(1) False unfolding stop_ok_def to_DFA_def by blast
    ultimately show ?thesis by simp
  qed
next
  case (Cons a w)
  let ?fin = "to_DFA_run K nfa kp"
  let ?T = "GetNext nfa a S"
  have a: "a < K" and w: "\<forall>a\<in>set w. a < K" using Cons.prems(2) by simp_all
  have e: "edge_ok nfa kp ?fin S i a" by (rule final_edges[OF Cons.prems(1) a])
  show ?case
  proof (cases "?T = {} \<and> \<not> kp")
    case True
    then have "DFA_GetNext (to_DFA K nfa kp) i a = None"
      using e by (simp add: edge_ok_def to_DFA_def)
    then show ?thesis using True by (simp add: foldl_GetNext_empty)
  next
    case False
    then have "id_map ?fin ?T \<noteq> None
        \<and> DFA_GetNext (to_DFA K nfa kp) i a = id_map ?fin ?T"
      using e by (simp add: edge_ok_def to_DFA_def)
    then obtain t where t: "id_map ?fin ?T = Some t"
      and g: "DFA_GetNext (to_DFA K nfa kp) i a = Some t"
      by fastforce
    from Cons.IH[OF t w] show ?thesis using g by simp
  qed
qed

lemma to_DFA_accepts_iff:
  assumes "\<forall>a\<in>set w. a < K"
  shows "DFA_accepts (to_DFA K nfa kp) w
     = (NFA_accepts nfa w
        \<and> foldl (\<lambda>S a. GetNext nfa a S) (GetStart nfa) w \<noteq> GetStart nfa)"
proof -
  have "id_map (to_DFA_run K nfa kp) (GetStart nfa) = Some 0"
    using final_base[of K nfa kp] by (simp add: inv_base_def ids_ok_def)
  from run_from_state[OF assms this] show ?thesis
    by (auto simp: DFA_accepts_def NFA_accepts_def)
qed

text \<open>
  C1. The claim: the NFA accepts \<open>w\<close> if and only if the DFA of \<open>to_DFA\<close> accepts
  \<open>w\<close>. On the code this fails when the start set of the NFA holds an accepting state:
  \<open>to_DFA\<close> marks a state accepting only when it allocates it in the loop, and state 0,
  seeded for the start set before the loop, is never marked. For \<open>loop_nfa\<close> the NFA
  accepts the empty word and the word \<open>0\<close>, and the DFA rejects both. By
  \<open>to_DFA_accepts_iff\<close> these are the only words on which the two differ: the words the
  NFA accepts in its start set.
\<close>

theorem to_DFA_rejects_words_of_accepting_start:
  "NFA_accepts loop_nfa [] \<and> \<not> DFA_accepts (to_DFA 2 loop_nfa False) []
   \<and> NFA_accepts loop_nfa [0] \<and> \<not> DFA_accepts (to_DFA 2 loop_nfa False) [0]"
  by code_simp


section \<open>Properties of the rule builder\<close>

lemma BuildRule_name: "rule_name (BuildRule r es) = rule_name r"
  by (induction es arbitrary: r) simp_all

lemma BuildRule_id: "rule_id (BuildRule r es) = rule_id r"
  by (induction es arbitrary: r) simp_all

lemma BuildRule_pattern: "rule_pattern (BuildRule r es) = rule_pattern r @ map GetID es"
  by (induction es arbitrary: r) simp_all

lemma BuildRule_eq:
  "BuildRule r es = r\<lparr>rule_pattern := rule_pattern r @ map GetID es\<rparr>"
  by (induction es arbitrary: r) simp_all

lemma AddRule_rules:
  "rules (snd (AddRule p nm es)) =
     rules p @ [\<lparr>rule_name = nm, rule_pattern = map GetID es, rule_id = cur_rule_id p\<rparr>]"
  by (simp add: AddRule_def Let_def BuildRule_eq)

lemma AddRule_fst: "fst (AddRule p nm es) = cur_rule_id p"
  by (simp add: AddRule_def Let_def BuildRule_id)

lemma AddRule_cur: "cur_rule_id (snd (AddRule p nm es)) = cur_rule_id p + 1"
  by (simp add: AddRule_def Let_def)

lemma AddRule_lexer: "lexer (snd (AddRule p nm es)) = lexer p"
  by (simp add: AddRule_def Let_def)

lemma AddRules_rules_prefix:
  "take (length (rules p)) (rules (AddRules p calls)) = rules p"
proof (induction calls arbitrary: p)
  case Nil
  show ?case by simp
next
  case (Cons c calls)
  obtain nm es where c: "c = (nm, es)" by (cases c)
  let ?q = "snd (AddRule p nm es)"
  have "take (length (rules ?q)) (rules (AddRules ?q calls)) = rules ?q"
    by (rule Cons.IH)
  then have "take (length (rules p)) (take (length (rules ?q)) (rules (AddRules ?q calls)))
      = take (length (rules p)) (rules ?q)"
    by simp
  then show ?case
    by (simp add: c AddRule_rules min_def)
qed

lemma AddRules_rules_names:
  "map rule_name (rules (AddRules p calls)) = map rule_name (rules p) @ map fst calls"
proof (induction calls arbitrary: p)
  case Nil
  show ?case by simp
next
  case (Cons c calls)
  obtain nm es where c: "c = (nm, es)" by (cases c)
  show ?case by (simp add: c Cons.IH AddRule_rules)
qed

lemma AddRules_rules_patterns:
  "map rule_pattern (rules (AddRules p calls)) =
     map rule_pattern (rules p) @ map (\<lambda>c. map GetID (snd c)) calls"
proof (induction calls arbitrary: p)
  case Nil
  show ?case by simp
next
  case (Cons c calls)
  obtain nm es where c: "c = (nm, es)" by (cases c)
  show ?case by (simp add: c Cons.IH AddRule_rules)
qed

lemma AddRules_rules_length:
  "length (rules (AddRules p calls)) = length (rules p) + length calls"
proof (induction calls arbitrary: p)
  case Nil
  show ?case by simp
next
  case (Cons c calls)
  obtain nm es where c: "c = (nm, es)" by (cases c)
  show ?case by (simp add: c Cons.IH AddRule_rules)
qed

text \<open>
  C10. Every call to \<open>AddRule\<close> appends exactly one rule at the end of the rule list and
  leaves the rules stored before unchanged (names, ids and patterns, since the old list is
  a prefix of the new one); after the calls \<open>calls\<close> on a new parser the list holds one
  rule per call, in the order of the calls, with the name and the resolved pattern of
  each call.
\<close>

theorem AddRule_appends_one_rule:
  "rules (snd (AddRule p nm es)) =
     rules p @ [\<lparr>rule_name = nm, rule_pattern = map GetID es, rule_id = cur_rule_id p\<rparr>]
   \<and> take (length (rules p)) (rules (AddRules p calls)) = rules p
   \<and> length (rules (AddRules (Parser_new lx) calls)) = length calls
   \<and> map rule_name (rules (AddRules (Parser_new lx) calls)) = map fst calls
   \<and> map rule_pattern (rules (AddRules (Parser_new lx) calls))
       = map (\<lambda>c. map GetID (snd c)) calls"
  by (simp add: AddRule_rules AddRules_rules_prefix AddRules_rules_names
      AddRules_rules_patterns AddRules_rules_length Parser_new_def)

lemma AddRule_first_id: "fst (AddRule (Parser_new lx) nm es) = MaxTokenID lx"
  by (simp add: AddRule_fst Parser_new_def)

lemma AddRule_next_id:
  "fst (AddRule (snd (AddRule p nm es)) nm' es') = fst (AddRule p nm es) + 1"
  by (simp add: AddRule_fst AddRule_cur)





text \<open>
  C3. The claim: a string element that names neither a declared rule nor a token of the
  lexer makes the rule addition fail. On the code \<open>AddRule\<close> has no failing path: for
  the unknown name \<open>nonexistent_token\<close> (unknown also to the resolution the spec
  describes) it returns an id and stores the rule with the element resolved to \<open>0\<close>.
\<close>

theorem AddRule_unknown_name_stored_as_zero:
  "resolve_name_spec
     (Parser_new \<lparr>token_ids = [(''num'', 6), (''plus'', 7)], max_token_id = 7\<rparr>)
     ''nonexistent_token'' = None
   \<and> AddRule (Parser_new \<lparr>token_ids = [(''num'', 6), (''plus'', 7)], max_token_id = 7\<rparr>)
       ''stmt'' [StrElem ''nonexistent_token'']
     = (7, \<lparr>lexer = \<lparr>token_ids = [(''num'', 6), (''plus'', 7)], max_token_id = 7\<rparr>,
            rules = [\<lparr>rule_name = ''stmt'', rule_pattern = [0], rule_id = 7\<rparr>],
            cur_rule_id = 8\<rparr>)"
  by (simp add: resolve_name_spec_def AddRule_def Parser_new_def MaxTokenID_def Let_def)

text \<open>
  C4. The claim: a string element is resolved against the rules declared so far, then
  against the token names of the lexer, and an integer element is used as it is. On the
  code the integer \<open>5\<close> is used as it is, but the declared rule name \<open>expr\<close> and the
  token name \<open>num\<close>, which the resolution of the spec maps to the ids \<open>7\<close> and \<open>6\<close>,
  are both stored as \<open>0\<close>.
\<close>

theorem AddRule_known_names_stored_as_zero:
  "resolve_name_spec
     (snd (AddRule (Parser_new \<lparr>token_ids = [(''num'', 6), (''plus'', 7)], max_token_id = 7\<rparr>)
        ''expr'' [IntElem 6])) ''expr'' = Some 7
   \<and> resolve_name_spec
     (snd (AddRule (Parser_new \<lparr>token_ids = [(''num'', 6), (''plus'', 7)], max_token_id = 7\<rparr>)
        ''expr'' [IntElem 6])) ''num'' = Some 6
   \<and> map rule_pattern (rules (snd (AddRule
       (snd (AddRule (Parser_new \<lparr>token_ids = [(''num'', 6), (''plus'', 7)], max_token_id = 7\<rparr>)
          ''expr'' [IntElem 6]))
       ''stmt'' [StrElem ''expr'', StrElem ''num'', IntElem 5])))
     = [[6], [0, 0, 5]]"
  by (simp add: resolve_name_spec_def AddRule_def Parser_new_def MaxTokenID_def Let_def)

end
